theory Spec2Isabelle
  imports Main "HOL-Library.Sublist" "HOL-Library.Word"
begin

section \<open>Python values held by the ledger\<close>

text \<open>
  \<^verbatim>\<open>json.load\<close> yields \<^verbatim>\<open>None\<close>, a bool, an int, a float, a str, a list or a dict with
  string keys. A float is kept as its 64 bits; a dict is an association list in insertion
  order, looked up with \<open>map_of\<close>. Strings are lists of 8-bit characters.

  Python compares \<^verbatim>\<open>True\<close>, \<^verbatim>\<open>1\<close> and \<^verbatim>\<open>1.0\<close> equal, which the datatype does not. The
  program only ever asks whether a pair of two strings is in the key set, and a string is
  equal to nothing but the same string, so the answers are those of Python.
\<close>

datatype json =
    JNull
  | JBool bool
  | JInt int
  | JFloat "64 word"
  | JStr string
  | JArr "json list"
  | JObj "(string \<times> json) list"

datatype exn = KeyError | TypeError | AttributeError | ValueError | FileNotFoundError

text \<open>\<^verbatim>\<open>entry[key]\<close> with a string key: only a dict holding the key answers.\<close>

fun subscript :: "json \<Rightarrow> string \<Rightarrow> exn + json" where
  "subscript (JObj kvs) k = (case map_of kvs k of None \<Rightarrow> Inl KeyError | Some v \<Rightarrow> Inr v)"
| "subscript _ k = Inl TypeError"

text \<open>\<^verbatim>\<open>for entry in data\<close>: a list yields its items, a dict its keys, a str its characters.\<close>

fun py_iter :: "json \<Rightarrow> exn + json list" where
  "py_iter (JArr xs) = Inr xs"
| "py_iter (JObj kvs) = Inr (map (\<lambda>kv. JStr (fst kv)) kvs)"
| "py_iter (JStr s) = Inr (map (\<lambda>c. JStr [c]) s)"
| "py_iter _ = Inl TypeError"

text \<open>Lists and dicts cannot be members of a tuple that goes into a set.\<close>

fun hashable :: "json \<Rightarrow> bool" where
  "hashable (JArr _) = False"
| "hashable (JObj _) = False"
| "hashable _ = True"

section \<open>The ledger file and its two operations\<close>

text \<open>
  The file \<^verbatim>\<open>crack_log.json\<close> as \<^verbatim>\<open>load_log_entries\<close> meets it: not a regular file
  (\<open>Absent\<close>), a file that \<^verbatim>\<open>open\<close> or \<^verbatim>\<open>json.load\<close> rejects (\<open>Unreadable\<close>), or a file
  holding the text of a JSON value (\<open>Holds\<close>). \<^verbatim>\<open>json.dump\<close> followed by \<^verbatim>\<open>json.load\<close>
  gives the value back, which is why the file is kept as the value it holds. Writing the
  file is taken to succeed.
\<close>

datatype ledger_file = Absent | Unreadable | Holds json

text \<open>The tuple \<^verbatim>\<open>(entry["hash"], entry["mode_id"])\<close> on its way into the set.\<close>

definition entry_key :: "json \<Rightarrow> exn + (json \<times> json)" where
  "entry_key entry =
     (case subscript entry ''hash'' of
        Inl e \<Rightarrow> Inl e
      | Inr h \<Rightarrow>
          (case subscript entry ''mode_id'' of
             Inl e \<Rightarrow> Inl e
           | Inr m \<Rightarrow> if hashable h \<and> hashable m then Inr (h, m) else Inl TypeError))"

text \<open>The set comprehension of \<^verbatim>\<open>load_log_entries\<close>, one entry after the other.\<close>

fun collect_seen :: "json list \<Rightarrow> (json \<times> json) set \<Rightarrow> exn + (json \<times> json) set" where
  "collect_seen [] seen = Inr seen"
| "collect_seen (entry # rest) seen =
     (case entry_key entry of
        Inl e \<Rightarrow> Inl e
      | Inr k \<Rightarrow> collect_seen rest (insert k seen))"

definition seen_of :: "json \<Rightarrow> exn + (json \<times> json) set" where
  "seen_of data =
     (case py_iter data of
        Inl e \<Rightarrow> Inl e
      | Inr entries \<Rightarrow> collect_seen entries {})"

text \<open>
  \<^verbatim>\<open>load_log_entries\<close>: every exception inside the \<^verbatim>\<open>try\<close> is swallowed and the function
  falls through to \<^verbatim>\<open>return set(), []\<close>.
\<close>

definition load_log_entries :: "ledger_file \<Rightarrow> (json \<times> json) set \<times> json" where
  "load_log_entries f =
     (case f of
        Absent \<Rightarrow> ({}, JArr [])
      | Unreadable \<Rightarrow> ({}, JArr [])
      | Holds data \<Rightarrow>
          (case seen_of data of
             Inl e \<Rightarrow> ({}, JArr [])
           | Inr seen \<Rightarrow> (seen, data)))"

text \<open>
  \<^verbatim>\<open>append_log\<close>: \<^verbatim>\<open>entries_list.append(entry)\<close>, then the whole list is written over the
  file. Only a list has \<^verbatim>\<open>append\<close>. The result is the mutated list and the new file.
\<close>

fun append_log :: "json \<Rightarrow> json \<Rightarrow> exn + (json \<times> ledger_file)" where
  "append_log (JArr xs) entry = Inr (JArr (xs @ [entry]), Holds (JArr (xs @ [entry])))"
| "append_log _ entry = Inl AttributeError"

text \<open>A log entry as \<^verbatim>\<open>main\<close> builds it, and the dict it becomes.\<close>

record log_entry =
  hash :: string
  mode_id :: string
  clear :: string
  timestamp :: string

definition entry_dict :: "log_entry \<Rightarrow> json" where
  "entry_dict e =
     JObj [(''hash'', JStr (hash e)), (''mode_id'', JStr (mode_id e)),
           (''clear'', JStr (clear e)), (''timestamp'', JStr (timestamp e))]"

section \<open>The pending hashes of a mode\<close>

text \<open>
  \<^verbatim>\<open>[h for h in all_hashes if (h, mode_id) not in already_cracked]\<close>, as the loop the
  comprehension runs: the hashes kept so far are the accumulator.
\<close>

fun pending_loop ::
  "string list \<Rightarrow> string \<Rightarrow> (json \<times> json) set \<Rightarrow> string list \<Rightarrow> string list" where
  "pending_loop [] m already_cracked acc = acc"
| "pending_loop (h # hs) m already_cracked acc =
     (if (JStr h, JStr m) \<notin> already_cracked
      then pending_loop hs m already_cracked (acc @ [h])
      else pending_loop hs m already_cracked acc)"

definition pending_for :: "string list \<Rightarrow> string \<Rightarrow> (json \<times> json) set \<Rightarrow> string list" where
  "pending_for all_hashes m already_cracked = pending_loop all_hashes m already_cracked []"

text \<open>The specification's pending set, in its own words.\<close>

definition PendingSet :: "string list \<Rightarrow> string \<Rightarrow> (json \<times> json) set \<Rightarrow> string list" where
  "PendingSet H m L = filter (\<lambda>h. (JStr h, JStr m) \<notin> L) H"

section \<open>Strings\<close>

text \<open>
  The characters \<^verbatim>\<open>str.isspace\<close> accepts and the line boundaries of
  \<^verbatim>\<open>str.splitlines\<close>, among the code points below 256.
\<close>

definition is_space :: "char \<Rightarrow> bool" where
  "is_space c \<longleftrightarrow>
     c \<in> {CHR 0x09, CHR 0x0A, CHR 0x0B, CHR 0x0C, CHR 0x0D, CHR 0x1C, CHR 0x1D,
          CHR 0x1E, CHR 0x1F, CHR 0x20, CHR 0x85, CHR 0xA0}"

definition is_linebreak :: "char \<Rightarrow> bool" where
  "is_linebreak c \<longleftrightarrow>
     c \<in> {CHR 0x0A, CHR 0x0B, CHR 0x0C, CHR 0x0D, CHR 0x1C, CHR 0x1D, CHR 0x1E, CHR 0x85}"

definition strip :: "string \<Rightarrow> string" where
  "strip s = rev (dropWhile is_space (rev (dropWhile is_space s)))"

text \<open>
  \<^verbatim>\<open>s.splitlines()\<close>: \<open>cur\<close> is the line being read, \<open>after_cr\<close> says that the last
  character was a carriage return, whose line feed belongs to the same boundary. No
  empty line follows the last boundary.
\<close>

fun splitlines_from :: "string \<Rightarrow> bool \<Rightarrow> string \<Rightarrow> string list" where
  "splitlines_from cur after_cr [] = (if cur = [] then [] else [cur])"
| "splitlines_from cur after_cr (c # s) =
     (if after_cr \<and> c = CHR 0x0A then splitlines_from cur False s
      else if is_linebreak c then cur # splitlines_from [] (c = CHR 0x0D) s
      else splitlines_from (cur @ [c]) False s)"

definition splitlines :: "string \<Rightarrow> string list" where
  "splitlines s = splitlines_from [] False s"

text \<open>\<^verbatim>\<open>line.split(sep, 1)\<close>: at most one cut, at the first separator.\<close>

fun split_once :: "char \<Rightarrow> string \<Rightarrow> string \<Rightarrow> string list" where
  "split_once sep acc [] = [acc]"
| "split_once sep acc (c # cs) =
     (if c = sep then [acc, cs] else split_once sep (acc @ [c]) cs)"

text \<open>Iterating a text file: the lines, each with the line feed that ends it.\<close>

fun file_lines_from :: "string \<Rightarrow> string \<Rightarrow> string list" where
  "file_lines_from cur [] = (if cur = [] then [] else [cur])"
| "file_lines_from cur (c # s) =
     (if c = CHR 0x0A then (cur @ [c]) # file_lines_from [] s
      else file_lines_from (cur @ [c]) s)"

section \<open>The world outside the program\<close>

text \<open>
  Everything the program asks of its surroundings, over a state \<open>'w\<close> of the outside
  world that every call may read and change: whether \<^verbatim>\<open>hashcat\<close> is in the path, the
  standard output of \<^verbatim>\<open>hashcat --show <hash_file>\<close>, whether the attack on a subset file
  returns 0, the standard output of the show call on the same subset, the clock, and
  the regular files by path. The subset file is passed as the lines written to it. A
  file is the text that reading it in text mode delivers, and it is empty when that text
  is; a file that is there can be read. \<^verbatim>\<open>hashcat\<close> is in the path for the whole run or not
  at all.
\<close>

record 'w env =
  files :: "string \<rightharpoonup> string"
  hashcat_in_path :: bool
  hashcat_show_file :: "string \<Rightarrow> 'w \<Rightarrow> string \<times> 'w"
  hashcat_attack :: "string \<Rightarrow> string list \<Rightarrow> string \<Rightarrow> 'w \<Rightarrow> bool \<times> 'w"
  hashcat_show_pot :: "string \<Rightarrow> string list \<Rightarrow> string \<Rightarrow> 'w \<Rightarrow> string \<times> 'w"
  utc_now :: "'w \<Rightarrow> string \<times> 'w"

datatype message =
    Usage
  | Bad_hash_file string
  | Bad_wordlist string
  | Hashcat_not_found
  | Enumerating string
  | No_candidates
  | Found_modes nat
  | Mode_listed string string
  | Starting
  | Skipped string string
  | Attempting string string
  | Found
  | Pair_line string string
  | Not_found
  | Summary_header
  | Nothing_cracked
  | Summary_mode string string nat
  | All_done

datatype effect =
    Print message
  | Write_subset "string list"
  | Create_pot
  | Run_attack string
  | Run_show string
  | Append_log json
  | Remove_pot
  | Remove_subset

text \<open>How the process ends: \<^verbatim>\<open>sys.exit(n)\<close>, or an exception nobody catches.\<close>

datatype ending = SystemExit nat | Uncaught exn

text \<open>The interpreter's exit status: a traceback ends the process with status 1.\<close>

fun exit_status :: "ending \<Rightarrow> nat" where
  "exit_status (SystemExit n) = n"
| "exit_status (Uncaught e) = 1"

section \<open>Validation, enumeration, the corpus\<close>

definition usable_file :: "(string \<rightharpoonup> string) \<Rightarrow> string \<Rightarrow> bool" where
  "usable_file fs p = (case fs p of None \<Rightarrow> False | Some text \<Rightarrow> length text \<noteq> 0)"

text \<open>\<^verbatim>\<open>validate_args\<close>: \<open>Inl\<close> is the message printed before \<^verbatim>\<open>sys.exit(1)\<close>.\<close>

definition validate_args ::
  "(string \<rightharpoonup> string) \<Rightarrow> string list \<Rightarrow> message + (string \<times> string)" where
  "validate_args fs argv =
     (if length argv \<noteq> 3 then Inl Usage
      else
        (let hash_file = argv ! 1; wordlist = argv ! 2 in
         if \<not> usable_file fs hash_file then Inl (Bad_hash_file hash_file)
         else if \<not> usable_file fs wordlist then Inl (Bad_wordlist wordlist)
         else Inr (hash_file, wordlist)))"

text \<open>
  \<^verbatim>\<open>get_candidate_modes\<close>. The regular expression is matched by Python's engine, so
  \<open>pat\<close> stands for \<^verbatim>\<open>pattern.match(line)\<close> followed by the two stripped groups: \<open>None\<close>
  when the line does not match. \<open>Inl\<close> is the message printed before \<^verbatim>\<open>sys.exit(1)\<close>.
\<close>

fun candidate_loop ::
  "(string \<Rightarrow> (string \<times> string) option) \<Rightarrow> string list \<Rightarrow> (string \<times> string) list
   \<Rightarrow> (string \<times> string) list" where
  "candidate_loop pat [] candidate_modes = candidate_modes"
| "candidate_loop pat (line # output) candidate_modes =
     (case pat line of
        None \<Rightarrow> candidate_loop pat output candidate_modes
      | Some mode \<Rightarrow> candidate_loop pat output (candidate_modes @ [mode]))"

definition get_candidate_modes ::
  "'w env \<Rightarrow> (string \<Rightarrow> (string \<times> string) option) \<Rightarrow> string \<Rightarrow> 'w
   \<Rightarrow> message + ((string \<times> string) list \<times> 'w)" where
  "get_candidate_modes E pat hash_file w =
     (if \<not> hashcat_in_path E then Inl Hashcat_not_found
      else
        (let (out, w') = hashcat_show_file E hash_file w
         in Inr (candidate_loop pat (splitlines out) [], w')))"

text \<open>\<^verbatim>\<open>get_all_hashes\<close>, on the text of the hash file.\<close>

fun hashes_loop :: "string list \<Rightarrow> string list \<Rightarrow> string list" where
  "hashes_loop [] hashes = hashes"
| "hashes_loop (line # rest) hashes =
     (let h = strip line in
      if h \<noteq> [] \<and> \<not> (case h of [] \<Rightarrow> False | c # _ \<Rightarrow> c = CHR ''#'')
      then hashes_loop rest (hashes @ [h])
      else hashes_loop rest hashes)"

definition get_all_hashes :: "(string \<rightharpoonup> string) \<Rightarrow> string \<Rightarrow> exn + string list" where
  "get_all_hashes fs hash_file =
     (case fs hash_file of
        None \<Rightarrow> Inl FileNotFoundError
      | Some text \<Rightarrow> Inr (hashes_loop (file_lines_from [] text) []))"

section \<open>Attack and extraction\<close>

definition run_hashcat_with_pot ::
  "'w env \<Rightarrow> string \<Rightarrow> string list \<Rightarrow> string \<Rightarrow> 'w \<Rightarrow> bool \<times> 'w" where
  "run_hashcat_with_pot E m subset_file wordlist w = hashcat_attack E m subset_file wordlist w"

text \<open>
  The loop of \<^verbatim>\<open>extract_cracked_from_pot\<close>. The assignment \<^verbatim>\<open>h, clear = ...\<close> raises
  \<^verbatim>\<open>ValueError\<close> unless the split has exactly two parts.
\<close>

fun pairs_loop ::
  "string list \<Rightarrow> (string \<times> string) list \<Rightarrow> exn + (string \<times> string) list" where
  "pairs_loop [] pairs = Inr pairs"
| "pairs_loop (line # rest) pairs =
     (if CHR '':'' \<in> set line
      then
        (case split_once (CHR '':'') [] line of
           [h, c] \<Rightarrow> pairs_loop rest (pairs @ [(h, c)])
         | _ \<Rightarrow> Inl ValueError)
      else pairs_loop rest pairs)"

definition extract_cracked_from_pot ::
  "'w env \<Rightarrow> string \<Rightarrow> string list \<Rightarrow> string \<Rightarrow> 'w
   \<Rightarrow> (exn + (string \<times> string) list) \<times> 'w" where
  "extract_cracked_from_pot E m subset_file wordlist w =
     (let (out, w') = hashcat_show_pot E m subset_file wordlist w
      in (pairs_loop (splitlines (strip out)) [], w'))"

section \<open>The run\<close>

text \<open>
  The variables of \<^verbatim>\<open>main\<close> that outlive one mode, the ledger file, the outside world,
  and the effects so far in the order they happened.
\<close>

record 'w run_state =
  world :: 'w
  ledger :: ledger_file
  already_cracked :: "(json \<times> json) set"
  log_entries :: json
  cracked_summary :: "(string \<times> string \<times> (string \<times> string) list) list"
  effects :: "effect list"

definition emit :: "effect list \<Rightarrow> 'w run_state \<Rightarrow> 'w run_state" where
  "emit es st = st\<lparr>effects := effects st @ es\<rparr>"

text \<open>
  The body of \<^verbatim>\<open>for h, clear in pairs\<close>: print the pair, build the entry, append it to
  the log, and append the mode's record to the summary. \<open>pairs\<close> is the whole list,
  the second list is what is left of it.
\<close>

fun log_pairs ::
  "'w env \<Rightarrow> string \<Rightarrow> string \<Rightarrow> (string \<times> string) list \<Rightarrow> (string \<times> string) list
   \<Rightarrow> 'w run_state \<Rightarrow> (exn \<times> 'w run_state) + 'w run_state" where
  "log_pairs E m n pairs [] st = Inr st"
| "log_pairs E m n pairs ((h, c) # rest) st =
     (let st1 = emit [Print (Pair_line h c)] st;
          (ts, w') = utc_now E (world st1);
          st2 = st1\<lparr>world := w'\<rparr>;
          entry = entry_dict \<lparr>hash = h, mode_id = m, clear = c, timestamp = ts\<rparr>
      in case append_log (log_entries st2) entry of
           Inl e \<Rightarrow> Inl (e, st2)
         | Inr (entries, file) \<Rightarrow>
             log_pairs E m n pairs rest
               (st2\<lparr>log_entries := entries, ledger := file,
                    cracked_summary := cracked_summary st2 @ [(m, n, pairs)],
                    effects := effects st2 @ [Append_log entry]\<rparr>))"

definition cleanup :: "'w run_state \<Rightarrow> 'w run_state" where
  "cleanup st = emit [Remove_pot, Remove_subset] st"

text \<open>One pass of the loop over the candidate modes.\<close>

definition process_mode ::
  "'w env \<Rightarrow> string \<Rightarrow> string list \<Rightarrow> string \<times> string \<Rightarrow> 'w run_state
   \<Rightarrow> (exn \<times> 'w run_state) + 'w run_state" where
  "process_mode E wordlist all_hashes mode st =
     (let m = fst mode; n = snd mode;
          pending = pending_for all_hashes m (already_cracked st)
      in if pending = [] then Inr (emit [Print (Skipped m n)] st)
         else
           (let st1 = emit [Print (Attempting m n), Write_subset pending, Create_pot] st;
                (cracked, w1) = run_hashcat_with_pot E m pending wordlist (world st1);
                st2 = emit [Run_attack m] (st1\<lparr>world := w1\<rparr>)
            in if cracked
               then
                 (let (r, w2) = extract_cracked_from_pot E m pending wordlist (world st2);
                      st3 = emit [Run_show m] (st2\<lparr>world := w2\<rparr>)
                  in case r of
                       Inl e \<Rightarrow> Inl (e, st3)
                     | Inr pairs \<Rightarrow>
                         (case log_pairs E m n pairs pairs (emit [Print Found] st3) of
                            Inl x \<Rightarrow> Inl x
                          | Inr st4 \<Rightarrow> Inr (cleanup st4)))
               else Inr (cleanup (emit [Print Not_found] st2))))"

fun mode_loop ::
  "'w env \<Rightarrow> string \<Rightarrow> string list \<Rightarrow> (string \<times> string) list \<Rightarrow> 'w run_state
   \<Rightarrow> (exn \<times> 'w run_state) + 'w run_state" where
  "mode_loop E wordlist all_hashes [] st = Inr st"
| "mode_loop E wordlist all_hashes (mode # candidates) st =
     (case process_mode E wordlist all_hashes mode st of
        Inl x \<Rightarrow> Inl x
      | Inr st' \<Rightarrow> mode_loop E wordlist all_hashes candidates st')"

text \<open>The lines of the final summary, one block for each record of the summary list.\<close>

definition summary_block :: "string \<times> string \<times> (string \<times> string) list \<Rightarrow> effect list" where
  "summary_block r =
     (case r of (m, n, pairs) \<Rightarrow>
        Print (Summary_mode m n (length pairs)) # map (\<lambda>p. Print (Pair_line (fst p) (snd p))) pairs)"

definition print_summary :: "'w run_state \<Rightarrow> 'w run_state" where
  "print_summary st =
     (if cracked_summary st = [] then emit [Print Summary_header, Print Nothing_cracked] st
      else emit (Print Summary_header # concat (map summary_block (cracked_summary st))
                 @ [Print All_done]) st)"

text \<open>
  \<^verbatim>\<open>main\<close>, from the arguments, the ledger file and the outside world to the way the
  process ends and the state it leaves.
\<close>

definition main ::
  "'w env \<Rightarrow> (string \<Rightarrow> (string \<times> string) option) \<Rightarrow> string list \<Rightarrow> ledger_file \<Rightarrow> 'w
   \<Rightarrow> ending \<times> 'w run_state" where
  "main E pat argv file w =
     (let st0 = \<lparr>world = w, ledger = file, already_cracked = {}, log_entries = JArr [],
                 cracked_summary = [], effects = []\<rparr>
      in case validate_args (files E) argv of
           Inl msg \<Rightarrow> (SystemExit 1, emit [Print msg] st0)
         | Inr (hash_file, wordlist) \<Rightarrow>
             (let loaded = load_log_entries file;
                  st1 = emit [Print (Enumerating hash_file)]
                          (st0\<lparr>already_cracked := fst loaded, log_entries := snd loaded\<rparr>)
              in case get_candidate_modes E pat hash_file (world st1) of
                   Inl msg \<Rightarrow> (SystemExit 1, emit [Print msg] st1)
                 | Inr (candidates, w1) \<Rightarrow>
                     if candidates = []
                     then (SystemExit 1, emit [Print No_candidates] (st1\<lparr>world := w1\<rparr>))
                     else
                       (case get_all_hashes (files E) hash_file of
                          Inl e \<Rightarrow> (Uncaught e, st1\<lparr>world := w1\<rparr>)
                        | Inr all_hashes \<Rightarrow>
                            (let st2 = emit (Print (Found_modes (length candidates))
                                             # map (\<lambda>c. Print (Mode_listed (fst c) (snd c))) candidates
                                             @ [Print Starting]) (st1\<lparr>world := w1\<rparr>)
                             in case mode_loop E wordlist all_hashes candidates st2 of
                                  Inl (e, st) \<Rightarrow> (Uncaught e, st)
                                | Inr st3 \<Rightarrow> (SystemExit 0, print_summary st3)))))"

section \<open>Notions of the specification\<close>

text \<open>The pair a line of the show output stands for: cut at its first colon.\<close>

definition split_at_first_colon :: "string \<Rightarrow> string \<times> string" where
  "split_at_first_colon line =
     (takeWhile (\<lambda>c. c \<noteq> CHR '':'') line, tl (dropWhile (\<lambda>c. c \<noteq> CHR '':'') line))"

text \<open>
  The show call keeps to its contract on a subset when every line of its output that
  has a colon starts, before the first colon, with a hash of the subset.
\<close>

definition names_only :: "string list \<Rightarrow> string \<Rightarrow> bool" where
  "names_only pending out =
     list_all (\<lambda>line. CHR '':'' \<notin> set line \<or> fst (split_at_first_colon line) \<in> set pending)
       (splitlines (strip out))"

definition honours_show_contract :: "'w env \<Rightarrow> bool" where
  "honours_show_contract E \<longleftrightarrow>
     (\<forall>m pending wordlist w. names_only pending (fst (hashcat_show_pot E m pending wordlist w)))"

text \<open>The set of (hash, mode id) pairs of the entries of a log.\<close>

definition ledger_keys :: "json \<Rightarrow> (json \<times> json) set" where
  "ledger_keys data =
     (case data of
        JArr xs \<Rightarrow> set (concat (map (\<lambda>e. case entry_key e of Inl _ \<Rightarrow> [] | Inr k \<Rightarrow> [k]) xs))
      | _ \<Rightarrow> {})"

text \<open>The entries a run appended, read off its effects.\<close>

definition appended :: "effect list \<Rightarrow> json list" where
  "appended es = concat (map (\<lambda>x. case x of Append_log e \<Rightarrow> [e] | _ \<Rightarrow> []) es)"

text \<open>The state a loop leaves, whether it ended or raised.\<close>

definition final :: "(exn \<times> 'w run_state) + 'w run_state \<Rightarrow> 'w run_state" where
  "final r = (case r of Inl x \<Rightarrow> snd x | Inr st \<Rightarrow> st)"

text \<open>Writing a ledger: one \<^verbatim>\<open>append_log\<close> after the other.\<close>

fun append_each :: "json \<Rightarrow> ledger_file \<Rightarrow> json list \<Rightarrow> exn + (json \<times> ledger_file)" where
  "append_each entries_list file [] = Inr (entries_list, file)"
| "append_each entries_list file (e # es) =
     (case append_log entries_list e of
        Inl x \<Rightarrow> Inl x
      | Inr (l, f) \<Rightarrow> append_each l f es)"

text \<open>The fatal conditions: those the specification lists, and those of the code.\<close>

definition listed_fatal ::
  "'w env \<Rightarrow> (string \<Rightarrow> (string \<times> string) option) \<Rightarrow> string list \<Rightarrow> 'w \<Rightarrow> bool" where
  "listed_fatal E pat argv w \<longleftrightarrow>
     \<not> usable_file (files E) (argv ! 1) \<or> \<not> usable_file (files E) (argv ! 2)
     \<or> \<not> hashcat_in_path E
     \<or> candidate_loop pat (splitlines (fst (hashcat_show_file E (argv ! 1) w))) [] = []"

definition fatal :: "'w env \<Rightarrow> (string \<Rightarrow> (string \<times> string) option) \<Rightarrow> string list \<Rightarrow> 'w \<Rightarrow> bool" where
  "fatal E pat argv w \<longleftrightarrow> length argv \<noteq> 3 \<or> listed_fatal E pat argv w"

text \<open>The hashes a show call names: what stands before the first colon of its lines.\<close>

definition shown_hashes :: "'w env \<Rightarrow> string \<Rightarrow> string list \<Rightarrow> string \<Rightarrow> 'w \<Rightarrow> string set" where
  "shown_hashes E m pending wordlist w =
     fst ` set (map split_at_first_colon
                 (filter (\<lambda>line. CHR '':'' \<in> set line)
                   (splitlines (strip (fst (hashcat_show_pot E m pending wordlist w))))))"

text \<open>The state of \<^verbatim>\<open>main\<close> once the log is loaded, before anything is printed.\<close>

definition loaded_state :: "ledger_file \<Rightarrow> 'w \<Rightarrow> 'w run_state" where
  "loaded_state lf w =
     \<lparr>world = w, ledger = lf, already_cracked = fst (load_log_entries lf),
      log_entries = snd (load_log_entries lf), cracked_summary = [], effects = []\<rparr>"

text \<open>
  What a stretch of a run may do to the state: the key set stays, the entries appended
  go to the end of the log and carry keys from \<open>fresh\<close>, and the file holds the log
  as soon as one entry has been appended.
\<close>

definition grows :: "(json \<times> json) set \<Rightarrow> 'w run_state \<Rightarrow> 'w run_state \<Rightarrow> bool" where
  "grows fresh st st' \<longleftrightarrow>
     already_cracked st' = already_cracked st
     \<and> (\<exists>new. appended (effects st') = appended (effects st) @ new
          \<and> (\<forall>e\<in>set new. \<exists>k\<in>fresh. entry_key e = Inr k)
          \<and> (case log_entries st of
                JArr xs \<Rightarrow> log_entries st' = JArr (xs @ new)
              | _ \<Rightarrow> log_entries st' = log_entries st \<and> new = [])
          \<and> ledger st' = (if new = [] then ledger st else Holds (log_entries st')))"

section \<open>Stand-ins for the external tool\<close>

text \<open>
  A tool that answers every call the same way: the hash file holds \<open>text\<close>, the
  enumeration prints the one line \<^verbatim>\<open>0 | MD5 | Raw Hash\<close>, the attack returns \<open>ok\<close> and the
  show call prints \<open>out\<close>, whatever the subset.
\<close>

definition fixed_tool :: "string \<Rightarrow> bool \<Rightarrow> string \<Rightarrow> unit env" where
  "fixed_tool text ok out =
     \<lparr>files = [''hashes.txt'' \<mapsto> text, ''words.txt'' \<mapsto> ''password''],
      hashcat_in_path = True,
      hashcat_show_file = (\<lambda>p w. (''0 | MD5 | Raw Hash'', w)),
      hashcat_attack = (\<lambda>m s wl w. (ok, w)),
      hashcat_show_pot = (\<lambda>m s wl w. (out, w)),
      utc_now = (\<lambda>w. (''2025-01-01T00:00:00+00:00'', w))\<rparr>"

text \<open>
  A tool that keeps to the contract: each attack cracks the first hash of the subset
  that it knows, and the show call prints that hash alone.
\<close>

definition first_known :: "string list \<Rightarrow> string" where
  "first_known pending =
     (case filter (\<lambda>h. h = ''aa'' \<or> h = ''bb'') pending of
        [] \<Rightarrow> []
      | h # _ \<Rightarrow> h @ '':pw'')"

definition honest_tool :: "string \<Rightarrow> unit env" where
  "honest_tool text =
     \<lparr>files = [''hashes.txt'' \<mapsto> text, ''words.txt'' \<mapsto> ''password''],
      hashcat_in_path = True,
      hashcat_show_file = (\<lambda>p w. (''0 | MD5 | Raw Hash'', w)),
      hashcat_attack = (\<lambda>m s wl w. (first_known s \<noteq> [], w)),
      hashcat_show_pot = (\<lambda>m s wl w. (first_known s, w)),
      utc_now = (\<lambda>w. (''2025-01-01T00:00:00+00:00'', w))\<rparr>"

definition md5_line :: "string \<Rightarrow> (string \<times> string) option" where
  "md5_line line = (if line = ''0 | MD5 | Raw Hash'' then Some (''0'', ''MD5'') else None)"

definition two_hashes :: string where
  "two_hashes = ''aa'' @ [CHR 0x0A] @ ''bb'' @ [CHR 0x0A]"

definition run_args :: "string list" where
  "run_args = [''auto_crack.py'', ''hashes.txt'', ''words.txt'']"

section \<open>Properties\<close>

lemma pending_loop_filter:
  "pending_loop hs m L acc = acc @ filter (\<lambda>h. (JStr h, JStr m) \<notin> L) hs"
  by (induction hs arbitrary: acc) simp_all

text \<open>
  C1. For every list of hashes, every mode id and every ledger key set, the pending list
  computed for the mode is the specification's pending set: the hashes \<open>h\<close> of
  \<open>all_hashes\<close> with \<open>(h, m)\<close> not among the keys, in the order of \<open>all_hashes\<close> and as
  often as they occur there. It is a subsequence of \<open>all_hashes\<close>, and each hash occurs in
  it as often as in \<open>all_hashes\<close> when its key is absent and not at all otherwise.
\<close>

theorem pending_for_correct:
  "pending_for all_hashes m L = PendingSet all_hashes m L
   \<and> subseq (pending_for all_hashes m L) all_hashes
   \<and> set (pending_for all_hashes m L) = {h \<in> set all_hashes. (JStr h, JStr m) \<notin> L}
   \<and> count_list (pending_for all_hashes m L) h
       = (if (JStr h, JStr m) \<in> L then 0 else count_list all_hashes h)"
proof -
  have eq: "pending_for all_hashes m L = filter (\<lambda>h. (JStr h, JStr m) \<notin> L) all_hashes"
    by (simp add: pending_for_def pending_loop_filter)
  have cnt: "count_list (filter P xs) h = (if P h then count_list xs h else 0)"
    for P :: "string \<Rightarrow> bool" and xs
    by (induction xs) auto
  show ?thesis
    unfolding eq PendingSet_def
    by (auto simp: cnt)
qed

theorem pending_for_correct_witness:
  "pending_for [''aa'', ''bb'', ''aa'', ''cc''] ''0'' {(JStr ''bb'', JStr ''0''), (JStr ''cc'', JStr ''1400'')}
     = [''aa'', ''aa'', ''cc'']
   \<and> PendingSet [''aa'', ''bb'', ''aa'', ''cc''] ''0'' {(JStr ''bb'', JStr ''0''), (JStr ''cc'', JStr ''1400'')}
     = [''aa'', ''aa'', ''cc'']"
  using pending_for_correct [of "[''aa'', ''bb'', ''aa'', ''cc'']" "''0''"
      "{(JStr ''bb'', JStr ''0''), (JStr ''cc'', JStr ''1400'')}" "''aa''"]
  by (simp add: PendingSet_def)


lemma split_once_eq:
  "split_once sep acc s =
     (if sep \<in> set s then [acc @ takeWhile (\<lambda>c. c \<noteq> sep) s, tl (dropWhile (\<lambda>c. c \<noteq> sep) s)]
      else [acc @ s])"
  by (induction s arbitrary: acc) auto

lemma pairs_loop_eq:
  "pairs_loop lines pairs =
     Inr (pairs @ map split_at_first_colon (filter (\<lambda>l. CHR '':'' \<in> set l) lines))"
  by (induction lines arbitrary: pairs) (simp_all add: split_once_eq split_at_first_colon_def)

lemma split_at_first_colon_parts:
  "CHR '':'' \<in> set line \<Longrightarrow>
     fst (split_at_first_colon line) @ CHR '':'' # snd (split_at_first_colon line) = line
     \<and> CHR '':'' \<notin> set (fst (split_at_first_colon line))"
proof -
  assume a: "CHR '':'' \<in> set line"
  let ?P = "\<lambda>c. c \<noteq> CHR '':''"
  from a have ne: "dropWhile ?P line \<noteq> []" by (simp add: dropWhile_eq_Nil_conv)
  then have hd: "hd (dropWhile ?P line) = CHR '':''"
    using hd_dropWhile [of ?P line] by simp
  have "takeWhile ?P line @ dropWhile ?P line = line" by simp
  moreover have "dropWhile ?P line = CHR '':'' # tl (dropWhile ?P line)"
    using ne hd by (cases "dropWhile ?P line") simp_all
  ultimately have "takeWhile ?P line @ CHR '':'' # tl (dropWhile ?P line) = line" by simp
  moreover have "CHR '':'' \<notin> set (takeWhile ?P line)"
    using set_takeWhileD by fastforce
  ultimately show ?thesis by (simp add: split_at_first_colon_def)
qed

text \<open>
  C10. Result extraction never raises, whatever the show call prints: its result is the
  list of the lines that hold a colon, in order, each cut at its first colon into the
  pair (hash, cleartext); a line with no colon gives no pair. For a line with a colon the
  hash part has no colon, and hash, colon and cleartext put together are the line.
\<close>

theorem extraction_total:
  "fst (extract_cracked_from_pot E m pending wordlist w)
     = Inr (map split_at_first_colon
             (filter (\<lambda>line. CHR '':'' \<in> set line)
               (splitlines (strip (fst (hashcat_show_pot E m pending wordlist w))))))
   \<and> (CHR '':'' \<in> set line \<longrightarrow>
        fst (split_at_first_colon line) @ CHR '':'' # snd (split_at_first_colon line) = line
        \<and> CHR '':'' \<notin> set (fst (split_at_first_colon line)))"
proof -
  obtain out w' where o: "hashcat_show_pot E m pending wordlist w = (out, w')"
    by (cases "hashcat_show_pot E m pending wordlist w")
  have "fst (extract_cracked_from_pot E m pending wordlist w)
          = pairs_loop (splitlines (strip out)) []"
    by (simp add: extract_cracked_from_pot_def o)
  then show ?thesis
    using split_at_first_colon_parts [of line] by (simp add: pairs_loop_eq o)
qed

theorem extraction_total_witness:
  "fst (extract_cracked_from_pot
          (fixed_tool two_hashes True (''aa:p:w'' @ [CHR 0x0A] @ ''junk'' @ [CHR 0x0A] @ '':''))
          ''0'' [''aa'', ''bb''] ''words.txt'' ())
     = Inr [(''aa'', ''p:w''), ([], [])]
   \<and> split_at_first_colon ''aa:p:w'' = (''aa'', ''p:w'')"
  using extraction_total [of "fixed_tool two_hashes True (''aa:p:w'' @ [CHR 0x0A] @ ''junk'' @ [CHR 0x0A] @ '':'')"
      "''0''" "[''aa'', ''bb'']" "''words.txt''" "()" "''aa:p:w''"]
  by (simp add: fixed_tool_def split_at_first_colon_def strip_def splitlines_def is_space_def
      is_linebreak_def)

lemma names_only_iff:
  "names_only pending out \<longleftrightarrow>
     fst ` set (map split_at_first_colon
                 (filter (\<lambda>line. CHR '':'' \<in> set line) (splitlines (strip out))))
       \<subseteq> set pending"
  by (auto simp: names_only_def list_all_iff)




text \<open>
  C9. When the pending list of a mode is empty, the pass over that mode leaves the
  state as it was but for one printed line, the skip notice: no subset file, no pot
  file, no call of the tool, no entry appended, the ledger file untouched. The skip
  notice is not the line of an attempt that found nothing, and the loop goes on with
  the next mode.
\<close>

theorem empty_pending_skips:
  "pending_for all_hashes m (already_cracked st) = [] \<Longrightarrow>
     process_mode E wordlist all_hashes (m, n) st
       = Inr (st\<lparr>effects := effects st @ [Print (Skipped m n)]\<rparr>)
     \<and> Skipped m n \<noteq> Not_found
     \<and> mode_loop E wordlist all_hashes ((m, n) # candidates) st
         = mode_loop E wordlist all_hashes candidates
             (st\<lparr>effects := effects st @ [Print (Skipped m n)]\<rparr>)"
  by (simp add: process_mode_def emit_def)

theorem empty_pending_skips_witness:
  "pending_for [''aa''] ''0'' {(JStr ''aa'', JStr ''0'')} = []
   \<and> process_mode (fixed_tool two_hashes True ''aa:pw'') ''words.txt'' [''aa''] (''0'', ''MD5'')
        \<lparr>world = (), ledger = Absent, already_cracked = {(JStr ''aa'', JStr ''0'')},
         log_entries = JArr [], cracked_summary = [], effects = []\<rparr>
      = Inr \<lparr>world = (), ledger = Absent, already_cracked = {(JStr ''aa'', JStr ''0'')},
             log_entries = JArr [], cracked_summary = [],
             effects = [Print (Skipped ''0'' ''MD5'')]\<rparr>"
proof -
  have p: "pending_for [''aa''] ''0''
             (already_cracked \<lparr>world = (), ledger = Absent,
                already_cracked = {(JStr ''aa'', JStr ''0'')},
                log_entries = JArr [], cracked_summary = [], effects = []\<rparr>) = []"
    by (simp add: pending_for_def)
  show ?thesis
    using empty_pending_skips [OF p, of "fixed_tool two_hashes True ''aa:pw''" "''words.txt''"
        "''MD5''" "[]"]
    by (simp add: pending_for_def)
qed

subsection \<open>What a run does to the log\<close>

lemma appended_append [simp]: "appended (xs @ ys) = appended xs @ appended ys"
  by (simp add: appended_def)

lemma appended_Nil [simp]: "appended [] = []"
  by (simp add: appended_def)

lemma appended_Cons [simp]:
  "appended (x # es) = (case x of Append_log e \<Rightarrow> [e] | _ \<Rightarrow> []) @ appended es"
  by (simp add: appended_def)

lemma grows_refl: "grows F st st"
  by (auto simp: grows_def split: json.splits)

lemma grows_mono: "grows F st st' \<Longrightarrow> F \<subseteq> G \<Longrightarrow> grows G st st'"
  unfolding grows_def by (elim conjE exE) (rule conjI, assumption, blast)

lemma grows_trans:
  assumes "grows F st st'" and "grows F st' st''"
  shows "grows F st st''"
proof -
  from assms(1) obtain new1 where
    a1: "already_cracked st' = already_cracked st"
    and e1: "appended (effects st') = appended (effects st) @ new1"
    and k1: "\<forall>e\<in>set new1. \<exists>k\<in>F. entry_key e = Inr k"
    and l1: "case log_entries st of JArr xs \<Rightarrow> log_entries st' = JArr (xs @ new1)
             | _ \<Rightarrow> log_entries st' = log_entries st \<and> new1 = []"
    and f1: "ledger st' = (if new1 = [] then ledger st else Holds (log_entries st'))"
    unfolding grows_def by blast
  from assms(2) obtain new2 where
    a2: "already_cracked st'' = already_cracked st'"
    and e2: "appended (effects st'') = appended (effects st') @ new2"
    and k2: "\<forall>e\<in>set new2. \<exists>k\<in>F. entry_key e = Inr k"
    and l2: "case log_entries st' of JArr xs \<Rightarrow> log_entries st'' = JArr (xs @ new2)
             | _ \<Rightarrow> log_entries st'' = log_entries st' \<and> new2 = []"
    and f2: "ledger st'' = (if new2 = [] then ledger st' else Holds (log_entries st''))"
    unfolding grows_def by blast
  have l: "case log_entries st of JArr xs \<Rightarrow> log_entries st'' = JArr (xs @ new1 @ new2)
           | _ \<Rightarrow> log_entries st'' = log_entries st \<and> new1 @ new2 = []"
    using l1 l2 by (cases "log_entries st") auto
  have f: "ledger st'' = (if new1 @ new2 = [] then ledger st else Holds (log_entries st''))"
    using f1 f2 l1 l2 by (cases "log_entries st") auto
  show ?thesis
    unfolding grows_def
    using a1 a2 e1 e2 k1 k2 l f
    by (intro conjI exI [of _ "new1 @ new2"]) auto
qed

lemma grows_emit: "appended es = [] \<Longrightarrow> grows F st (emit es st)"
  by (auto simp: grows_def emit_def split: json.splits)

lemma entry_key_entry_dict [simp]:
  "entry_key (entry_dict \<lparr>hash = h, mode_id = m, clear = c, timestamp = t\<rparr>) = Inr (JStr h, JStr m)"
  by (simp add: entry_key_def entry_dict_def)

lemma log_pairs_grows:
  "grows {(JStr h, JStr m) | h. h \<in> fst ` set rest} st (final (log_pairs E m n pairs rest st))"
proof (induction rest arbitrary: st)
  case Nil
  show ?case by (simp add: final_def grows_refl)
next
  case (Cons p rest)
  obtain h c where p: "p = (h, c)" by (cases p)
  obtain ts w' where u: "utc_now E (world st) = (ts, w')" by (cases "utc_now E (world st)")
  let ?F = "{(JStr h', JStr m) | h'. h' \<in> fst ` set (p # rest)}"
  let ?st2 = "(emit [Print (Pair_line h c)] st)\<lparr>world := w'\<rparr>"
  let ?entry = "entry_dict \<lparr>hash = h, mode_id = m, clear = c, timestamp = ts\<rparr>"
  have g2: "grows ?F st ?st2"
    by (auto simp: grows_def emit_def appended_def split: json.splits)
  show ?case
  proof (cases "log_entries st")
    case (JArr xs)
    let ?st3 = "?st2\<lparr>log_entries := JArr (xs @ [?entry]), ledger := Holds (JArr (xs @ [?entry])),
                     cracked_summary := cracked_summary ?st2 @ [(m, n, pairs)],
                     effects := effects ?st2 @ [Append_log ?entry]\<rparr>"
    have step: "log_pairs E m n pairs (p # rest) st = log_pairs E m n pairs rest ?st3"
      by (simp add: p u JArr emit_def Let_def)
    have g3: "grows ?F st ?st3"
      unfolding grows_def
      by (intro conjI exI [of _ "[?entry]"]) (auto simp: emit_def JArr p)
    have "grows {(JStr h', JStr m) | h'. h' \<in> fst ` set rest} ?st3
            (final (log_pairs E m n pairs rest ?st3))"
      by (rule Cons.IH)
    then have "grows ?F ?st3 (final (log_pairs E m n pairs rest ?st3))"
      by (rule grows_mono) auto
    with g3 show ?thesis unfolding step by (rule grows_trans)
  next
    case other: JNull
    have "log_pairs E m n pairs (p # rest) st = Inl (AttributeError, ?st2)"
      by (simp add: p u other emit_def Let_def)
    with g2 show ?thesis by (simp add: final_def)
  next
    case other: (JBool b)
    have "log_pairs E m n pairs (p # rest) st = Inl (AttributeError, ?st2)"
      by (simp add: p u other emit_def Let_def)
    with g2 show ?thesis by (simp add: final_def)
  next
    case other: (JInt i)
    have "log_pairs E m n pairs (p # rest) st = Inl (AttributeError, ?st2)"
      by (simp add: p u other emit_def Let_def)
    with g2 show ?thesis by (simp add: final_def)
  next
    case other: (JFloat x)
    have "log_pairs E m n pairs (p # rest) st = Inl (AttributeError, ?st2)"
      by (simp add: p u other emit_def Let_def)
    with g2 show ?thesis by (simp add: final_def)
  next
    case other: (JStr s)
    have "log_pairs E m n pairs (p # rest) st = Inl (AttributeError, ?st2)"
      by (simp add: p u other emit_def Let_def)
    with g2 show ?thesis by (simp add: final_def)
  next
    case other: (JObj kvs)
    have "log_pairs E m n pairs (p # rest) st = Inl (AttributeError, ?st2)"
      by (simp add: p u other emit_def Let_def)
    with g2 show ?thesis by (simp add: final_def)
  qed
qed


lemma grows_already: "grows F st st' \<Longrightarrow> already_cracked st' = already_cracked st"
  by (simp add: grows_def)


lemma process_mode_grows:
  "grows {(JStr h, JStr (fst mode)) | h. \<exists>w. h \<in> shown_hashes E (fst mode)
                  (pending_for all_hashes (fst mode) (already_cracked st)) wordlist w}
           st (final (process_mode E wordlist all_hashes mode st))"
proof -
  let ?m = "fst mode" and ?n = "snd mode"
  let ?pending = "pending_for all_hashes ?m (already_cracked st)"
  let ?F = "{(JStr h, JStr ?m) | h. \<exists>w. h \<in> shown_hashes E ?m ?pending wordlist w}"
  show ?thesis
  proof (cases "?pending = []")
    case True
    then have "process_mode E wordlist all_hashes mode st = Inr (emit [Print (Skipped ?m ?n)] st)"
      by (simp add: process_mode_def)
    then show ?thesis by (simp add: final_def grows_emit)
  next
    case False
    let ?st1 = "emit [Print (Attempting ?m ?n), Write_subset ?pending, Create_pot] st"
    obtain cracked w1 where a: "hashcat_attack E ?m ?pending wordlist (world ?st1) = (cracked, w1)"
      by (cases "hashcat_attack E ?m ?pending wordlist (world ?st1)")
    let ?st2 = "emit [Run_attack ?m] (?st1\<lparr>world := w1\<rparr>)"
    have g2: "grows ?F st ?st2"
      by (auto simp: grows_def emit_def split: json.splits)
    show ?thesis
    proof (cases cracked)
      case False
      have "process_mode E wordlist all_hashes mode st = Inr (cleanup (emit [Print Not_found] ?st2))"
        using \<open>?pending \<noteq> []\<close> a False
        by (simp add: process_mode_def run_hashcat_with_pot_def Let_def)
      moreover have "grows ?F st (cleanup (emit [Print Not_found] ?st2))"
        by (auto simp: grows_def emit_def cleanup_def split: json.splits)
      ultimately show ?thesis by (simp add: final_def)
    next
      case True
      obtain out w2 where s: "hashcat_show_pot E ?m ?pending wordlist (world ?st2) = (out, w2)"
        by (cases "hashcat_show_pot E ?m ?pending wordlist (world ?st2)")
      let ?pairs = "map split_at_first_colon
                      (filter (\<lambda>line. CHR '':'' \<in> set line) (splitlines (strip out)))"
      let ?st3 = "emit [Print Found] (emit [Run_show ?m] (?st2\<lparr>world := w2\<rparr>))"
      have g3: "grows ?F st ?st3"
        by (auto simp: grows_def emit_def split: json.splits)
      have ex: "extract_cracked_from_pot E ?m ?pending wordlist (world ?st2) = (Inr ?pairs, w2)"
        by (simp add: extract_cracked_from_pot_def s pairs_loop_eq)
      have sub: "{(JStr h, JStr ?m) | h. h \<in> fst ` set ?pairs} \<subseteq> ?F"
        using s by (auto simp: shown_hashes_def intro!: exI [of _ "world ?st2"])
      have gl: "grows ?F ?st3 (final (log_pairs E ?m ?n ?pairs ?pairs ?st3))"
        using log_pairs_grows sub by (rule grows_mono)
      have pm: "process_mode E wordlist all_hashes mode st =
                  (case log_pairs E ?m ?n ?pairs ?pairs ?st3 of
                     Inl x \<Rightarrow> Inl x | Inr st4 \<Rightarrow> Inr (cleanup st4))"
        using \<open>?pending \<noteq> []\<close> a True ex
        by (simp add: process_mode_def run_hashcat_with_pot_def Let_def)
      show ?thesis
      proof (cases "log_pairs E ?m ?n ?pairs ?pairs ?st3")
        case (Inl x)
        with gl g3 show ?thesis
          unfolding pm by (auto simp: final_def intro: grows_trans)
      next
        case (Inr st4)
        with gl have g4: "grows ?F ?st3 st4" by (simp add: final_def)
        have "grows ?F st4 (cleanup st4)"
          unfolding cleanup_def by (rule grows_emit) simp
        with g3 g4 have "grows ?F st (cleanup st4)" by (blast intro: grows_trans)
        then show ?thesis unfolding pm by (simp add: final_def Inr)
      qed
    qed
  qed
qed

lemma mode_loop_grows:
  assumes "\<And>mode st'. already_cracked st' = A \<Longrightarrow>
             grows F st' (final (process_mode E wordlist all_hashes mode st'))"
    and "already_cracked st = A"
  shows "grows F st (final (mode_loop E wordlist all_hashes candidates st))"
  using assms(2)
proof (induction candidates arbitrary: st)
  case Nil
  show ?case by (simp add: final_def grows_refl)
next
  case (Cons mode candidates)
  have g: "grows F st (final (process_mode E wordlist all_hashes mode st))"
    using assms(1) Cons.prems by blast
  show ?case
  proof (cases "process_mode E wordlist all_hashes mode st")
    case (Inl x)
    with g show ?thesis by (simp add: final_def)
  next
    case (Inr st')
    with g have g': "grows F st st'" by (simp add: final_def)
    then have "already_cracked st' = A" using Cons.prems by (simp add: grows_already)
    then have "grows F st' (final (mode_loop E wordlist all_hashes candidates st'))"
      by (rule Cons.IH)
    with g' show ?thesis by (simp add: Inr) (rule grows_trans)
  qed
qed

lemma pending_for_filter:
  "pending_for all_hashes m L = filter (\<lambda>h. (JStr h, JStr m) \<notin> L) all_hashes"
  by (simp add: pending_for_def pending_loop_filter)

lemma process_mode_grows_any:
  "grows UNIV st (final (process_mode E wordlist all_hashes mode st))"
  using process_mode_grows by (rule grows_mono) simp

lemma process_mode_grows_fresh:
  assumes "honours_show_contract E"
  shows "grows (- already_cracked st) st (final (process_mode E wordlist all_hashes mode st))"
  using process_mode_grows
proof (rule grows_mono)
  let ?pending = "pending_for all_hashes (fst mode) (already_cracked st)"
  have "shown_hashes E (fst mode) ?pending wordlist w \<subseteq> set ?pending" for w
    using assms unfolding honours_show_contract_def shown_hashes_def names_only_iff by blast
  then show "{(JStr h, JStr (fst mode)) | h. \<exists>w. h \<in> shown_hashes E (fst mode) ?pending wordlist w}
               \<subseteq> - already_cracked st"
    by (auto simp: pending_for_filter)
qed

lemma mode_loop_grows_any:
  "grows UNIV st (final (mode_loop E wordlist all_hashes candidates st))"
  by (rule mode_loop_grows [where A = "already_cracked st"]) (simp_all add: process_mode_grows_any)

lemma mode_loop_grows_fresh:
  assumes "honours_show_contract E"
  shows "grows (- already_cracked st) st (final (mode_loop E wordlist all_hashes candidates st))"
proof (rule mode_loop_grows [where A = "already_cracked st"])
  fix mode and st' :: "'a run_state"
  assume "already_cracked st' = already_cracked st"
  then show "grows (- already_cracked st) st' (final (process_mode E wordlist all_hashes mode st'))"
    using process_mode_grows_fresh [OF assms, of st'] by simp
qed simp




lemma usable_file_Some: "usable_file fs p \<Longrightarrow> \<exists>text. fs p = Some text"
  by (auto simp: usable_file_def split: option.splits)

lemma validate_args_Inr:
  "validate_args fs argv = Inr (hash_file, wordlist) \<longleftrightarrow>
     length argv = 3 \<and> usable_file fs (argv ! 1) \<and> usable_file fs (argv ! 2)
     \<and> hash_file = argv ! 1 \<and> wordlist = argv ! 2"
  by (auto simp: validate_args_def Let_def)

lemma main_invalid:
  "validate_args (files E) argv = Inl msg \<Longrightarrow>
     main E pat argv lf w
       = (SystemExit 1, \<lparr>world = w, ledger = lf, already_cracked = {}, log_entries = JArr [],
                          cracked_summary = [], effects = [Print msg]\<rparr>)"
  by (simp add: main_def emit_def)

lemma main_valid:
  assumes v: "validate_args (files E) argv = Inr (hash_file, wordlist)"
  shows "\<exists>st2 all_hashes candidates.
           already_cracked st2 = fst (load_log_entries lf)
           \<and> log_entries st2 = snd (load_log_entries lf)
           \<and> ledger st2 = lf \<and> appended (effects st2) = []
           \<and> (main E pat argv lf w = (SystemExit 1, st2) \<and> fatal E pat argv w
              \<or> \<not> fatal E pat argv w
                \<and> main E pat argv lf w
                    = (case mode_loop E wordlist all_hashes candidates st2 of
                         Inl x \<Rightarrow> (Uncaught (fst x), snd x)
                       | Inr st3 \<Rightarrow> (SystemExit 0, print_summary st3)))"
proof -
  from v have len: "length argv = 3" and uh: "usable_file (files E) hash_file"
    and uw: "usable_file (files E) wordlist" and hf: "hash_file = argv ! 1"
    and wl: "wordlist = argv ! 2"
    by (simp_all add: validate_args_Inr)
  let ?st1 = "\<lparr>world = w, ledger = lf, already_cracked = fst (load_log_entries lf),
               log_entries = snd (load_log_entries lf), cracked_summary = [],
               effects = [Print (Enumerating hash_file)]\<rparr>"
  show ?thesis
  proof (cases "hashcat_in_path E")
    case False
    then have "main E pat argv lf w = (SystemExit 1, emit [Print Hashcat_not_found] ?st1)"
      by (simp add: main_def v get_candidate_modes_def emit_def Let_def)
    moreover have "fatal E pat argv w" using False by (simp add: fatal_def listed_fatal_def)
    ultimately show ?thesis
      by (intro exI [of _ "emit [Print Hashcat_not_found] ?st1"]) (simp add: emit_def)
  next
    case True
    obtain out w1 where e: "hashcat_show_file E hash_file w = (out, w1)"
      by (cases "hashcat_show_file E hash_file w")
    let ?candidates = "candidate_loop pat (splitlines out) []"
    show ?thesis
    proof (cases "?candidates = []")
      case empty: True
      then have "main E pat argv lf w
                   = (SystemExit 1, emit [Print No_candidates] (?st1\<lparr>world := w1\<rparr>))"
        using True by (simp add: main_def v get_candidate_modes_def emit_def Let_def e)
      moreover have "fatal E pat argv w"
        using empty e hf by (simp add: fatal_def listed_fatal_def)
      ultimately show ?thesis
        by (intro exI [of _ "emit [Print No_candidates] (?st1\<lparr>world := w1\<rparr>)"])
          (simp add: emit_def)
    next
      case some: False
      from uh obtain content where t: "files E hash_file = Some content"
        using usable_file_Some by blast
      let ?all = "hashes_loop (file_lines_from [] content) []"
      let ?st2 = "emit (Print (Found_modes (length ?candidates))
                        # map (\<lambda>c. Print (Mode_listed (fst c) (snd c))) ?candidates
                        @ [Print Starting]) (?st1\<lparr>world := w1\<rparr>)"
      have q: "appended (map (\<lambda>c. Print (Mode_listed (fst c) (snd c))) cs) = []" for cs
        by (induction cs) simp_all
      have nf: "\<not> fatal E pat argv w"
        using some e hf wl len uh uw True by (simp add: fatal_def listed_fatal_def)
      have "main E pat argv lf w
              = (case mode_loop E wordlist ?all ?candidates ?st2 of
                   Inl x \<Rightarrow> (Uncaught (fst x), snd x)
                 | Inr st3 \<Rightarrow> (SystemExit 0, print_summary st3))"
        using True some
        by (simp add: main_def v get_candidate_modes_def get_all_hashes_def emit_def Let_def e t
            split: sum.splits prod.splits)
      with nf show ?thesis
        by (intro exI [of _ ?st2] exI [of _ ?all] exI [of _ ?candidates]) (simp add: emit_def q)
    qed
  qed
qed

subsection \<open>The ledger\<close>

lemma collect_seen_Inr:
  "collect_seen xs S = Inr T \<Longrightarrow>
     T = S \<union> ledger_keys (JArr xs) \<and> (\<forall>e\<in>set xs. \<exists>k. entry_key e = Inr k)"
  by (induction xs arbitrary: S) (auto simp: ledger_keys_def split: sum.splits)

lemma collect_seen_ok:
  "\<forall>e\<in>set xs. \<exists>k. entry_key e = Inr k \<Longrightarrow>
     collect_seen xs S = Inr (S \<union> ledger_keys (JArr xs))"
  by (induction xs arbitrary: S) (auto simp: ledger_keys_def)

lemma ledger_keys_append:
  "ledger_keys (JArr (xs @ ys)) = ledger_keys (JArr xs) \<union> ledger_keys (JArr ys)"
  by (simp add: ledger_keys_def)

lemma entry_key_JStr [simp]: "entry_key (JStr s) = Inl TypeError"
  by (simp add: entry_key_def)

lemma seen_of_cases:
  assumes "seen_of data = Inr seen"
  shows "seen = ledger_keys data
         \<and> ((\<exists>xs. data = JArr xs \<and> (\<forall>e\<in>set xs. \<exists>k. entry_key e = Inr k))
            \<or> data = JObj [] \<or> data = JStr [])"
proof (cases data)
  case (JArr xs)
  with assms show ?thesis
    using collect_seen_Inr [of xs "{}" seen] by (simp add: seen_of_def)
next
  case (JObj kvs)
  with assms show ?thesis
    by (cases kvs) (simp_all add: seen_of_def ledger_keys_def)
next
  case (JStr s)
  with assms show ?thesis
    by (cases s) (simp_all add: seen_of_def ledger_keys_def)
qed (use assms in \<open>simp_all add: seen_of_def\<close>)

lemma load_consistent: "fst (load_log_entries lf) = ledger_keys (snd (load_log_entries lf))"
proof (cases lf)
  case (Holds data)
  show ?thesis
  proof (cases "seen_of data")
    case (Inr seen)
    with Holds seen_of_cases [OF Inr] show ?thesis by (simp add: load_log_entries_def)
  qed (simp add: Holds load_log_entries_def ledger_keys_def)
qed (simp_all add: load_log_entries_def ledger_keys_def)

lemma load_list_entries:
  assumes "snd (load_log_entries lf) = JArr xs"
  shows "\<forall>e\<in>set xs. \<exists>k. entry_key e = Inr k"
proof (cases lf)
  case (Holds data)
  show ?thesis
  proof (cases "seen_of data")
    case (Inr seen)
    with Holds assms seen_of_cases [OF Inr] show ?thesis
      by (auto simp: load_log_entries_def)
  next
    case (Inl e)
    with Holds assms show ?thesis by (auto simp: load_log_entries_def)
  qed
qed (use assms in \<open>auto simp: load_log_entries_def\<close>)

lemma load_Holds_list:
  "\<forall>e\<in>set xs. \<exists>k. entry_key e = Inr k \<Longrightarrow>
     load_log_entries (Holds (JArr xs)) = (ledger_keys (JArr xs), JArr xs)"
  by (simp add: load_log_entries_def seen_of_def collect_seen_ok)

lemma append_each_list:
  "append_each (JArr xs) lf es
     = Inr (JArr (xs @ es), if es = [] then lf else Holds (JArr (xs @ es)))"
  by (induction es arbitrary: xs lf) simp_all

lemma ledger_keys_entry_dicts:
  "ledger_keys (JArr (map entry_dict es)) = set (map (\<lambda>e. (JStr (hash e), JStr (mode_id e))) es)"
  by (induction es) (auto simp: ledger_keys_def entry_key_def entry_dict_def)

lemma entry_key_entry_dict_any: "entry_key (entry_dict e) = Inr (JStr (hash e), JStr (mode_id e))"
  by (simp add: entry_key_def entry_dict_def)

text \<open>
  C6. Take any ledger file, the list the program loaded from it, and any list of log
  entries. Appending the entries one after the other with \<^verbatim>\<open>append_log\<close> succeeds, and
  loading the file it leaves gives back the whole list of entries and, as membership
  keys, the keys loaded before together with the (hash, mode id) pairs of the entries
  appended: the key set of the entries written.
\<close>

theorem ledger_round_trip:
  "load_log_entries lf0 = (seen0, JArr xs0) \<Longrightarrow>
     \<exists>lf'. append_each (JArr xs0) lf0 (map entry_dict es)
               = Inr (JArr (xs0 @ map entry_dict es), lf')
       \<and> load_log_entries lf'
           = (seen0 \<union> set (map (\<lambda>e. (JStr (hash e), JStr (mode_id e))) es),
              JArr (xs0 @ map entry_dict es))
       \<and> fst (load_log_entries lf') = ledger_keys (JArr (xs0 @ map entry_dict es))"
proof -
  assume l: "load_log_entries lf0 = (seen0, JArr xs0)"
  let ?new = "map entry_dict es"
  let ?lf' = "if ?new = [] then lf0 else Holds (JArr (xs0 @ ?new))"
  have s0: "seen0 = ledger_keys (JArr xs0)"
    using load_consistent [of lf0] l by simp
  have ok0: "\<forall>e\<in>set xs0. \<exists>k. entry_key e = Inr k"
    using load_list_entries [of lf0 xs0] l by simp
  have ok: "\<forall>e\<in>set (xs0 @ ?new). \<exists>k. entry_key e = Inr k"
    using ok0 by (auto simp: entry_key_entry_dict_any)
  have "load_log_entries ?lf' = (ledger_keys (JArr (xs0 @ ?new)), JArr (xs0 @ ?new))"
  proof (cases "es = []")
    case True
    then show ?thesis using l s0 by simp
  next
    case False
    then show ?thesis using load_Holds_list [OF ok] by simp
  qed
  moreover have "ledger_keys (JArr (xs0 @ ?new))
                   = seen0 \<union> set (map (\<lambda>e. (JStr (hash e), JStr (mode_id e))) es)"
    by (simp only: ledger_keys_append ledger_keys_entry_dicts s0)
  ultimately show ?thesis
    by (intro exI [of _ ?lf']) (simp add: append_each_list)
qed

theorem ledger_round_trip_witness:
  "load_log_entries Absent = ({}, JArr [])
   \<and> (\<exists>lf'. append_each (JArr []) Absent
                 [entry_dict \<lparr>hash = ''aa'', mode_id = ''0'', clear = ''pw'', timestamp = ''t1''\<rparr>,
                  entry_dict \<lparr>hash = ''bb'', mode_id = ''1400'', clear = ''x'', timestamp = ''t2''\<rparr>]
               = Inr (JArr
                 [entry_dict \<lparr>hash = ''aa'', mode_id = ''0'', clear = ''pw'', timestamp = ''t1''\<rparr>,
                  entry_dict \<lparr>hash = ''bb'', mode_id = ''1400'', clear = ''x'', timestamp = ''t2''\<rparr>],
                 lf')
        \<and> fst (load_log_entries lf') = {(JStr ''aa'', JStr ''0''), (JStr ''bb'', JStr ''1400'')})"
proof -
  have l: "load_log_entries Absent = ({}, JArr [])" by (simp add: load_log_entries_def)
  from ledger_round_trip [OF l,
      of "[\<lparr>hash = ''aa'', mode_id = ''0'', clear = ''pw'', timestamp = ''t1''\<rparr>,
           \<lparr>hash = ''bb'', mode_id = ''1400'', clear = ''x'', timestamp = ''t2''\<rparr>]"]
  show ?thesis using l by auto
qed

subsection \<open>Whole runs\<close>

lemma appended_summary_block [simp]: "appended (summary_block r) = []"
  by (cases r) (simp add: summary_block_def appended_def)

lemma appended_summary_blocks [simp]: "appended (concat (map summary_block rs)) = []"
  by (induction rs) simp_all

lemma grows_print_summary: "grows F st (print_summary st)"
  unfolding print_summary_def by (simp add: grows_emit)

lemma grows_ignores_start:
  "grows F st st' \<Longrightarrow> already_cracked st0 = already_cracked st \<Longrightarrow>
     log_entries st0 = log_entries st \<Longrightarrow> ledger st0 = ledger st \<Longrightarrow>
     appended (effects st0) = appended (effects st) \<Longrightarrow> grows F st0 st'"
proof -
  assume g: "grows F st st'" and a: "already_cracked st0 = already_cracked st"
    and l: "log_entries st0 = log_entries st" and f: "ledger st0 = ledger st"
    and e: "appended (effects st0) = appended (effects st)"
  from g show ?thesis unfolding grows_def a l f e .
qed

lemma main_grows:
  assumes pm: "\<And>wordlist hs mode st'. already_cracked st' = fst (load_log_entries lf) \<Longrightarrow>
                 grows F st' (final (process_mode E wordlist hs mode st'))"
  shows "(\<exists>msg. validate_args (files E) argv = Inl msg) \<and> appended (effects (snd (main E pat argv lf w))) = []
         \<or> grows F (loaded_state lf w) (snd (main E pat argv lf w))"
proof (cases "validate_args (files E) argv")
  case (Inl msg)
  then show ?thesis by (simp add: main_invalid)
next
  case (Inr v)
  obtain hash_file wordlist where v: "v = (hash_file, wordlist)" by (cases v)
  from main_valid [OF Inr [unfolded v], where pat = pat and lf = lf and w = w]
  obtain st2 all_hashes candidates where
    a: "already_cracked st2 = fst (load_log_entries lf)"
    and l: "log_entries st2 = snd (load_log_entries lf)"
    and f: "ledger st2 = lf" and q: "appended (effects st2) = []"
    and m: "main E pat argv lf w = (SystemExit 1, st2)
            \<or> main E pat argv lf w
                 = (case mode_loop E wordlist all_hashes candidates st2 of
                      Inl x \<Rightarrow> (Uncaught (fst x), snd x)
                    | Inr st3 \<Rightarrow> (SystemExit 0, print_summary st3))"
    by blast
  have start: "grows F (loaded_state lf w) st'" if "grows F st2 st'" for st'
    using that by (rule grows_ignores_start) (simp_all add: loaded_state_def a l f q)
  have loop: "grows F st2 (final (mode_loop E wordlist all_hashes candidates st2))"
    by (rule mode_loop_grows [where A = "fst (load_log_entries lf)"]) (simp_all add: pm a)
  from m have "grows F st2 (snd (main E pat argv lf w))"
  proof
    assume "main E pat argv lf w = (SystemExit 1, st2)"
    then show ?thesis by (simp add: grows_refl)
  next
    assume r: "main E pat argv lf w
                 = (case mode_loop E wordlist all_hashes candidates st2 of
                      Inl x \<Rightarrow> (Uncaught (fst x), snd x)
                    | Inr st3 \<Rightarrow> (SystemExit 0, print_summary st3))"
    show ?thesis
    proof (cases "mode_loop E wordlist all_hashes candidates st2")
      case (Inl x)
      with loop r show ?thesis by (simp add: final_def)
    next
      case (Inr st3)
      with loop have "grows F st2 st3" by (simp add: final_def)
      then have "grows F st2 (print_summary st3)"
        using grows_print_summary by (rule grows_trans)
      with r Inr show ?thesis by simp
    qed
  qed
  then show ?thesis using start by blast
qed

lemma main_grows_any:
  "(\<exists>msg. validate_args (files E) argv = Inl msg) \<and> appended (effects (snd (main E pat argv lf w))) = []
   \<or> grows UNIV (loaded_state lf w) (snd (main E pat argv lf w))"
  by (rule main_grows) (rule process_mode_grows_any)



lemma grows_ledger_keys:
  "grows F st st' \<Longrightarrow> ledger_keys (log_entries st) \<subseteq> ledger_keys (log_entries st')"
  by (cases "log_entries st") (auto simp: grows_def ledger_keys_append)

lemma grows_loaded:
  "grows F (loaded_state lf w) S \<longleftrightarrow>
     already_cracked S = fst (load_log_entries lf)
     \<and> (\<forall>e\<in>set (appended (effects S)). \<exists>k\<in>F. entry_key e = Inr k)
     \<and> (case snd (load_log_entries lf) of
           JArr xs \<Rightarrow> log_entries S = JArr (xs @ appended (effects S))
         | _ \<Rightarrow> log_entries S = snd (load_log_entries lf) \<and> appended (effects S) = [])
     \<and> ledger S = (if appended (effects S) = [] then lf else Holds (log_entries S))"
  by (cases "snd (load_log_entries lf)") (auto simp: grows_def loaded_state_def)

lemmas eval_defs =
  main_def validate_args_def usable_file_def load_log_entries_def seen_of_def
  get_candidate_modes_def get_all_hashes_def process_mode_def pending_for_def
  run_hashcat_with_pot_def extract_cracked_from_pot_def cleanup_def emit_def print_summary_def
  summary_block_def fixed_tool_def honest_tool_def first_known_def md5_line_def two_hashes_def
  run_args_def strip_def splitlines_def is_space_def is_linebreak_def entry_dict_def
  entry_key_def Let_def

text \<open>
  C2, as amended. The key set used for membership queries is the key set of the entries
  loaded at startup and stays so: neither the loop over the pairs of a mode nor the loop
  over the modes changes it, whether they end or raise, while the keys of the entry
  sequence only grow. At the end of a run that passed validation the key set is still
  the one loaded, and the keys of the entry sequence are the loaded keys together with
  the keys of the entries the run appended.
\<close>

theorem derived_set_fixed_at_startup:
  "fst (load_log_entries lf) = ledger_keys (snd (load_log_entries lf))
   \<and> already_cracked (final (log_pairs E m n pairs rest st)) = already_cracked st
   \<and> ledger_keys (log_entries st)
       \<subseteq> ledger_keys (log_entries (final (log_pairs E m n pairs rest st)))
   \<and> already_cracked (final (mode_loop E wordlist all_hashes candidates st)) = already_cracked st
   \<and> ledger_keys (log_entries st)
       \<subseteq> ledger_keys (log_entries (final (mode_loop E wordlist all_hashes candidates st)))
   \<and> (length argv = 3 \<and> usable_file (files E) (argv ! 1) \<and> usable_file (files E) (argv ! 2)
        \<longrightarrow> already_cracked (snd (main E pat argv lf w)) = fst (load_log_entries lf)
            \<and> ledger_keys (log_entries (snd (main E pat argv lf w)))
                = fst (load_log_entries lf)
                  \<union> ledger_keys (JArr (appended (effects (snd (main E pat argv lf w))))))"
proof -
  have g1: "grows {(JStr h, JStr m) | h. h \<in> fst ` set rest} st
              (final (log_pairs E m n pairs rest st))"
    by (rule log_pairs_grows)
  have g2: "grows UNIV st (final (mode_loop E wordlist all_hashes candidates st))"
    by (rule mode_loop_grows_any)
  have m: "already_cracked (snd (main E pat argv lf w)) = fst (load_log_entries lf)
           \<and> ledger_keys (log_entries (snd (main E pat argv lf w)))
               = fst (load_log_entries lf)
                 \<union> ledger_keys (JArr (appended (effects (snd (main E pat argv lf w)))))"
    if v: "length argv = 3 \<and> usable_file (files E) (argv ! 1) \<and> usable_file (files E) (argv ! 2)"
  proof -
    let ?S = "snd (main E pat argv lf w)"
    from v have "validate_args (files E) argv = Inr (argv ! 1, argv ! 2)"
      by (simp add: validate_args_Inr)
    with main_grows_any [of E argv pat lf w]
    have g: "grows UNIV (loaded_state lf w) ?S" by simp
    then have a: "already_cracked ?S = fst (load_log_entries lf)"
      and l: "case snd (load_log_entries lf) of
                JArr xs \<Rightarrow> log_entries ?S = JArr (xs @ appended (effects ?S))
              | _ \<Rightarrow> log_entries ?S = snd (load_log_entries lf) \<and> appended (effects ?S) = []"
      by (simp_all add: grows_loaded)
    have "ledger_keys (log_entries ?S)
            = fst (load_log_entries lf) \<union> ledger_keys (JArr (appended (effects ?S)))"
      using l load_consistent [of lf]
      by (cases "snd (load_log_entries lf)") (auto simp: ledger_keys_append ledger_keys_def)
    with a show ?thesis by simp
  qed
  show ?thesis
    using load_consistent [of lf] grows_already [OF g1] grows_ledger_keys [OF g1]
      grows_already [OF g2] grows_ledger_keys [OF g2] m
    by blast
qed

lemma stale_run:
  "already_cracked (snd (main (fixed_tool two_hashes True ''aa:pw'') md5_line run_args Absent ())) = {}
   \<and> log_entries (snd (main (fixed_tool two_hashes True ''aa:pw'') md5_line run_args Absent ()))
       = JArr [entry_dict \<lparr>hash = ''aa'', mode_id = ''0'', clear = ''pw'',
                           timestamp = ''2025-01-01T00:00:00+00:00''\<rparr>]
   \<and> ledger (snd (main (fixed_tool two_hashes True ''aa:pw'') md5_line run_args Absent ()))
       = Holds (JArr [entry_dict \<lparr>hash = ''aa'', mode_id = ''0'', clear = ''pw'',
                           timestamp = ''2025-01-01T00:00:00+00:00''\<rparr>])
   \<and> appended (effects (snd (main (fixed_tool two_hashes True ''aa:pw'') md5_line run_args Absent ())))
       = [entry_dict \<lparr>hash = ''aa'', mode_id = ''0'', clear = ''pw'',
                           timestamp = ''2025-01-01T00:00:00+00:00''\<rparr>]
   \<and> fst (main (fixed_tool two_hashes True ''aa:pw'') md5_line run_args Absent ()) = SystemExit 0"
  by (simp add: eval_defs)

theorem derived_set_fixed_at_startup_witness:
  "length run_args = 3
   \<and> usable_file (files (fixed_tool two_hashes True ''aa:pw'')) (run_args ! 1)
   \<and> usable_file (files (fixed_tool two_hashes True ''aa:pw'')) (run_args ! 2)
   \<and> already_cracked (snd (main (fixed_tool two_hashes True ''aa:pw'') md5_line run_args Absent ()))
       = fst (load_log_entries Absent)
   \<and> ledger_keys (log_entries (snd (main (fixed_tool two_hashes True ''aa:pw'') md5_line run_args Absent ())))
       = {(JStr ''aa'', JStr ''0'')}"
proof -
  have v: "length run_args = 3
           \<and> usable_file (files (fixed_tool two_hashes True ''aa:pw'')) (run_args ! 1)
           \<and> usable_file (files (fixed_tool two_hashes True ''aa:pw'')) (run_args ! 2)"
    by (simp add: run_args_def fixed_tool_def usable_file_def two_hashes_def)
  have k: "ledger_keys (JArr [entry_dict \<lparr>hash = ''aa'', mode_id = ''0'', clear = ''pw'',
                           timestamp = ''2025-01-01T00:00:00+00:00''\<rparr>]) = {(JStr ''aa'', JStr ''0'')}"
    by (simp add: ledger_keys_def)
  from derived_set_fixed_at_startup [of Absent "fixed_tool two_hashes True ''aa:pw''" "''0''"
      "''MD5''" "[]" "[]" "loaded_state Absent ()" "''words.txt''" "[]" "[]" run_args md5_line "()"] v
  have "already_cracked (snd (main (fixed_tool two_hashes True ''aa:pw'') md5_line run_args Absent ()))
          = fst (load_log_entries Absent)"
    by blast
  then show ?thesis using v stale_run k by simp
qed

text \<open>
  C2 as stated fails: after a run that appended the entry for hash \<open>aa\<close> under mode
  \<open>0\<close> the key set is still empty, while the loaded and appended entries have that key.
\<close>

theorem derived_set_stale_counterexample:
  "already_cracked (snd (main (fixed_tool two_hashes True ''aa:pw'') md5_line run_args Absent ())) = {}
   \<and> ledger_keys (log_entries (snd (main (fixed_tool two_hashes True ''aa:pw'') md5_line run_args Absent ())))
       = {(JStr ''aa'', JStr ''0'')}
   \<and> fst (load_log_entries Absent)
       \<union> ledger_keys (JArr (appended (effects
            (snd (main (fixed_tool two_hashes True ''aa:pw'') md5_line run_args Absent ())))))
       = {(JStr ''aa'', JStr ''0'')}"
  using stale_run by (simp add: ledger_keys_def load_log_entries_def)













text \<open>
  C7 fails on a ledger file that holds \<^verbatim>\<open>{}\<close> or \<^verbatim>\<open>""\<close>: nothing raises while loading, the
  key set is empty, but what comes back in the place of the entry list is the empty dict
  or the empty string, and the first \<^verbatim>\<open>append_log\<close> of the run ends the process with an
  \<^verbatim>\<open>AttributeError\<close>, exit status 1.
\<close>

theorem empty_object_ledger_is_fatal:
  "load_log_entries (Holds (JObj [])) = ({}, JObj [])
   \<and> fst (main (fixed_tool two_hashes True ''aa:pw'') md5_line run_args (Holds (JObj [])) ())
       = Uncaught AttributeError
   \<and> exit_status (fst (main (fixed_tool two_hashes True ''aa:pw'') md5_line run_args
                           (Holds (JObj [])) ())) = 1
   \<and> load_log_entries (Holds (JStr [])) = ({}, JStr [])
   \<and> fst (main (fixed_tool two_hashes True ''aa:pw'') md5_line run_args (Holds (JStr [])) ())
       = Uncaught AttributeError"
  by (simp add: eval_defs)

text \<open>
  C4 fails when a mode cracks two hashes: the record of the mode is appended to the
  summary once for each of its pairs, so it is there twice.
\<close>

theorem summary_repeats_mode_record:
  "cracked_summary (snd (main (fixed_tool two_hashes True (''aa:pw'' @ [CHR 0x0A] @ ''bb:pw''))
                           md5_line run_args Absent ()))
     = [(''0'', ''MD5'', [(''aa'', ''pw''), (''bb'', ''pw'')]),
        (''0'', ''MD5'', [(''aa'', ''pw''), (''bb'', ''pw'')])]"
  by (simp add: eval_defs)

text \<open>Where loading does fall back to the empty log, and the three shapes of what it returns.\<close>

lemma load_falls_back:
  "load_log_entries Absent = ({}, JArr [])"
  "load_log_entries Unreadable = ({}, JArr [])"
  "seen_of data = Inl e \<Longrightarrow> load_log_entries (Holds data) = ({}, JArr [])"
  by (simp_all add: load_log_entries_def)

lemma load_shapes:
  "(\<exists>xs. snd (load_log_entries lf) = JArr xs)
   \<or> load_log_entries lf = ({}, JObj []) \<or> load_log_entries lf = ({}, JStr [])"
proof (cases lf)
  case (Holds data)
  show ?thesis
  proof (cases "seen_of data")
    case (Inr seen)
    from seen_of_cases [OF Inr] Inr Holds show ?thesis
      by (auto simp: load_log_entries_def ledger_keys_def)
  qed (simp add: Holds load_log_entries_def)
qed (simp_all add: load_log_entries_def)

end
